theory Spec2Isabelle
  imports Main
begin

section \<open>The strict-model plugin: data model\<close>

text \<open>
  The plugin of \<^verbatim>\<open>src/index.js\<close> closes over three values fixed when it is attached to a
  schema: the two option flags (each read with \<^verbatim>\<open>!!\<close>, hence a boolean) and the array
  \<^verbatim>\<open>paths\<close> filled by \<^verbatim>\<open>Schema.eachPath\<close>. The function \<^verbatim>\<open>restrictSelect\<close> reads them
  and nothing else of the plugin, so they are the fields of one record.
\<close>

record plugin =
  allowNonModelQueryParameters :: bool
  allowNonModelSelectionParameters :: bool
  paths :: "string list"

text \<open>
  A value stored under a key of a projection object. The source compares it with the
  numbers \<^verbatim>\<open>1\<close> (\<^verbatim>\<open>=== 1\<close>) and \<^verbatim>\<open>0\<close> (\<^verbatim>\<open>!== 0\<close>) only; \<open>Other\<close> stands for every
  value that is not an integer number (\<^verbatim>\<open>true\<close>, an operator object, ...), which strict
  equality tells apart from both.
\<close>

datatype jsval = Num int | Other

abbreviation included :: jsval where
  "included \<equiv> Num 1"

abbreviation excluded :: jsval where
  "excluded \<equiv> Num 0"

text \<open>
  A plain JavaScript object: its own properties as a list of key and value. An object has
  each key once; the operations below keep that. For an object the code receives, the list
  is in the order of \<^verbatim>\<open>Object.keys\<close>, which is the order its loops follow. An object the code
  builds is listed in the order of insertion; the code reads only the number of its keys.
\<close>

type_synonym obj = "(string \<times> jsval) list"

definition keys :: "obj \<Rightarrow> string list" where
  "keys ob = map fst ob"

text \<open>Reading \<^verbatim>\<open>ob[k]\<close>: \<open>None\<close> is \<^verbatim>\<open>undefined\<close>.\<close>

definition get_prop :: "obj \<Rightarrow> string \<Rightarrow> jsval option" where
  "get_prop ob k = map_of ob k"

text \<open>
  The assignment \<^verbatim>\<open>ob[k] = v\<close>: an existing key keeps its place and takes the new value,
  a new key goes to the end.
\<close>

fun set_prop :: "obj \<Rightarrow> string \<Rightarrow> jsval \<Rightarrow> obj" where
  "set_prop [] k v = [(k, v)]"
| "set_prop ((k', v') # ps) k v =
     (if k' = k then (k, v) # ps else (k', v') # set_prop ps k v)"

text \<open>
  The query a hook receives: what \<^verbatim>\<open>getQuery()\<close> returns (the filter conditions) and the
  property \<^verbatim>\<open>_fields\<close> (the projection), which may be \<^verbatim>\<open>undefined\<close>.
\<close>

record query =
  conditions :: obj
  fields_obj :: "obj option"

text \<open>
  The two errors of the source are plain \<^verbatim>\<open>Error\<close> objects that differ in their message:
  \<open>UnknownFilterField f\<close> is "Attempting to query on a field that is not listed in
  Mongoose model: f", \<open>UnknownSelectionField\<close> is "Attempting to project on a field that
  is not listed in Mongoose model" (with or without a final full stop).
\<close>

datatype error = UnknownFilterField string | UnknownSelectionField

text \<open>
  How a call of \<^verbatim>\<open>restrictSelect\<close> ends: it returns \<^verbatim>\<open>next()\<close>, or it throws. The model
  returns this together with the query as the call leaves it.
\<close>

datatype outcome = Next | Threw error

section \<open>The operations\<close>

text \<open>\<^verbatim>\<open>Array.prototype.indexOf\<close>: the first index holding the element, or \<open>-1\<close>.\<close>

fun indexOf :: "string list \<Rightarrow> string \<Rightarrow> int" where
  "indexOf [] x = -1"
| "indexOf (y # ys) x =
     (if y = x then 0 else (let i = indexOf ys x in if i = -1 then -1 else i + 1))"

text \<open>
  \<^verbatim>\<open>Array.prototype.join\<close> on an array of strings: the elements in order, with the separator
  between each two. The empty array gives the empty string.
\<close>

fun join :: "string list \<Rightarrow> string \<Rightarrow> string" where
  "join [] sep = []"
| "join [x] sep = x"
| "join (x # y # ys) sep = x @ sep @ join (y # ys) sep"

text \<open>
  The characters that \<^verbatim>\<open>\s\<close> of a JavaScript regular expression matches, among the
  characters with a code below 256 that the strings of the model hold: tab, line feed,
  vertical tab, form feed, carriage return, space and no-break space.
\<close>

definition isWhiteSpace :: "char \<Rightarrow> bool" where
  "isWhiteSpace c \<longleftrightarrow>
     c \<in> set [CHR 0x09, CHR 0x0A, CHR 0x0B, CHR 0x0C, CHR 0x0D, CHR '' '', CHR 0xA0]"

text \<open>
  The pieces of a string between its white space characters, one piece more than there
  are such characters; between two adjacent ones the piece is empty.
\<close>

fun splitWhite :: "string \<Rightarrow> string list" where
  "splitWhite [] = [[]]"
| "splitWhite (c # cs) =
     (if isWhiteSpace c then [] # splitWhite cs
      else (case splitWhite cs of [] \<Rightarrow> [[c]] | piece # pieces \<Rightarrow> (c # piece) # pieces))"

text \<open>
  Modelled from the spec: the operation's \<^verbatim>\<open>selectFields(list of names)\<close> setter, which is
  \<^verbatim>\<open>query.select\<close> of the query framework and not part of this repository. The source
  hands it the list as one string, the names joined by single spaces, and the setter reads
  the list back from the string as the framework documents for a string argument: the
  empty string changes nothing; otherwise the string is split at runs of white space
  (\<^verbatim>\<open>split(/\s+/)\<close>, empty pieces skipped), and each piece is entered into the operation's
  projection, with the marker \<^verbatim>\<open>0\<close> and without its first character when that is \<^verbatim>\<open>-\<close>, with
  the marker \<^verbatim>\<open>1\<close> otherwise. \<open>selectField\<close> enters one piece; \<open>select\<close> is the setter.
\<close>

definition selectField :: "obj \<Rightarrow> string \<Rightarrow> obj" where
  "selectField ob field =
     (case field of
        [] \<Rightarrow> ob
      | c # rest \<Rightarrow> if c = CHR ''-'' then set_prop ob rest excluded
                    else set_prop ob field included)"

definition select :: "string \<Rightarrow> query \<Rightarrow> query" where
  "select arg q =
     (if arg = [] then q
      else q\<lparr>fields_obj := Some (fold (\<lambda>field ob. selectField ob field) (splitWhite arg)
                                  (case fields_obj q of None \<Rightarrow> [] | Some ob \<Rightarrow> ob))\<rparr>)"

text \<open>
  Lines 50 to 56: the loop over the keys of the filter conditions. It throws at the first
  key that \<^verbatim>\<open>paths\<close> does not hold.
\<close>

fun checkQueryFields :: "string list \<Rightarrow> string list \<Rightarrow> error option" where
  "checkQueryFields ps [] = None"
| "checkQueryFields ps (queryField # rest) =
     (if indexOf ps queryField = -1 then Some (UnknownFilterField queryField)
      else checkQueryFields ps rest)"

text \<open>
  Lines 79 to 88: the loop of the inclusion branch over the keys of the projection, with
  \<^verbatim>\<open>newSelectQuery\<close> as accumulator. \<open>Inl\<close> is the \<^verbatim>\<open>throw\<close> of line 86.
\<close>

fun inclusionLoop :: "bool \<Rightarrow> string list \<Rightarrow> string list \<Rightarrow> obj \<Rightarrow> error + obj" where
  "inclusionLoop allow ps [] newSelectQuery = Inr newSelectQuery"
| "inclusionLoop allow ps (projField # rest) newSelectQuery =
     (if indexOf ps projField > -1
      then inclusionLoop allow ps rest (set_prop newSelectQuery projField included)
      else if \<not> allow then Inl UnknownSelectionField
      else inclusionLoop allow ps rest newSelectQuery)"

text \<open>
  Lines 97 to 104: the loop of the exclusion branch over \<^verbatim>\<open>paths\<close>. A path is kept unless
  the projection maps it to the number \<^verbatim>\<open>0\<close>; an absent key reads as \<^verbatim>\<open>undefined\<close>, which
  is not \<^verbatim>\<open>0\<close>.
\<close>

fun exclusionLoop :: "obj \<Rightarrow> string list \<Rightarrow> obj \<Rightarrow> obj" where
  "exclusionLoop projectionFieldMap [] newSelectQuery = newSelectQuery"
| "exclusionLoop projectionFieldMap (path # rest) newSelectQuery =
     exclusionLoop projectionFieldMap rest
       (if get_prop projectionFieldMap path \<noteq> Some excluded
        then set_prop newSelectQuery path included else newSelectQuery)"

text \<open>
  \<^verbatim>\<open>restrictSelect(query, next)\<close>, lines 38 to 113. The lengths are JavaScript numbers, so
  the difference of line 106 is taken in the integers and may be negative.
\<close>

definition restrictSelect :: "plugin \<Rightarrow> query \<Rightarrow> outcome \<times> query" where
  "restrictSelect pl q =
     (case (if \<not> allowNonModelQueryParameters pl
            then checkQueryFields (paths pl) (keys (conditions q)) else None) of
        Some e \<Rightarrow> (Threw e, q)
      | None \<Rightarrow>
         (let projectionFieldMap = (case fields_obj q of None \<Rightarrow> [] | Some ob \<Rightarrow> ob);
              projectionFields = keys projectionFieldMap;
              numSelectedPathIndexes = length projectionFields
          in if numSelectedPathIndexes = 0 then (Next, select (join (paths pl) '' '') q)
             else if get_prop projectionFieldMap (projectionFields ! 0) = Some included
             then (case inclusionLoop (allowNonModelSelectionParameters pl) (paths pl)
                          projectionFields [] of
                     Inl e \<Rightarrow> (Threw e, q)
                   | Inr newSelectQuery \<Rightarrow> (Next, q\<lparr>fields_obj := Some newSelectQuery\<rparr>))
             else (let newSelectQuery = exclusionLoop projectionFieldMap (paths pl) []
                   in if int (length (keys newSelectQuery))
                           \<noteq> int (length (paths pl)) - int (length projectionFields)
                         \<and> \<not> allowNonModelSelectionParameters pl
                      then (Threw UnknownSelectionField, q)
                      else (Next, q\<lparr>fields_obj := Some newSelectQuery\<rparr>))))"

text \<open>The projection a query carries, with \<^verbatim>\<open>undefined\<close> read as the empty object (line 66).\<close>

definition projection :: "query \<Rightarrow> obj" where
  "projection q = (case fields_obj q of None \<Rightarrow> [] | Some ob \<Rightarrow> ob)"

section \<open>The vocabulary of the properties\<close>

text \<open>
  Step 1 lets the query through: the plugin skips the check of the filter, or every key of
  the filter conditions is one of \<^verbatim>\<open>paths\<close>.
\<close>

definition filterPasses :: "plugin \<Rightarrow> query \<Rightarrow> bool" where
  "filterPasses pl q \<longleftrightarrow>
     allowNonModelQueryParameters pl \<or> list_all (\<lambda>k. k \<in> set (paths pl)) (keys (conditions q))"

text \<open>An object holds each of its keys once.\<close>

definition wellFormed :: "obj \<Rightarrow> bool" where
  "wellFormed ob \<longleftrightarrow> distinct (keys ob)"

text \<open>
  The test of line 76, which takes the inclusion branch: the projection has a key and its
  first key is marked \<^verbatim>\<open>1\<close>.
\<close>

definition inclusionMode :: "obj \<Rightarrow> bool" where
  "inclusionMode P \<longleftrightarrow> P \<noteq> [] \<and> snd (hd P) = included"

text \<open>Every key of the object carries the marker \<open>v\<close>.\<close>

definition uniform :: "jsval \<Rightarrow> obj \<Rightarrow> bool" where
  "uniform v P \<longleftrightarrow> list_all (\<lambda>kv. snd kv = v) P"

text \<open>A projection in exclusion mode: it has a key, and every key is marked \<^verbatim>\<open>0\<close>.\<close>

definition exclusionMode :: "obj \<Rightarrow> bool" where
  "exclusionMode P \<longleftrightarrow> P \<noteq> [] \<and> uniform excluded P"

text \<open>
  A field name that the string handed to \<open>select\<close> encodes faithfully: it is not empty,
  it does not start with \<^verbatim>\<open>-\<close>, and it holds no white space.
\<close>

definition wellNamed :: "string \<Rightarrow> bool" where
  "wellNamed f \<longleftrightarrow> f \<noteq> [] \<and> hd f \<noteq> CHR ''-'' \<and> list_all (\<lambda>c. \<not> isWhiteSpace c) f"

section \<open>Basic facts\<close>

text \<open>
  The helper operations and the three loops, each characterised on its own: what
  \<open>indexOf\<close> returns, what an assignment does to the entries and keys of an object, when the
  loop over the filter keys throws, and what the two projection loops build.
\<close>

lemma indexOf_ge: "- 1 \<le> indexOf ys x"
  by (induction ys) (auto simp: Let_def)

lemma indexOf_absent: "indexOf ys x = - 1 \<longleftrightarrow> x \<notin> set ys"
proof (induction ys)
  case Nil
  show ?case by simp
next
  case (Cons y ys)
  have "- 1 \<le> indexOf ys x" by (rule indexOf_ge)
  with Cons show ?case by (auto simp: Let_def)
qed

lemma indexOf_present: "- 1 < indexOf ys x \<longleftrightarrow> x \<in> set ys"
  using indexOf_ge [of ys x] indexOf_absent [of ys x] by linarith

lemma set_prop_fresh: "k \<notin> set (keys ob) \<Longrightarrow> set_prop ob k v = ob @ [(k, v)]"
  by (induction ob) (auto simp: keys_def)

lemma set_set_prop: "set (set_prop ob k v) \<subseteq> insert (k, v) (set ob)"
  by (induction ob) (auto split: if_splits)


lemma checkQueryFields_None: "checkQueryFields ps ks = None \<longleftrightarrow> set ks \<subseteq> set ps"
  by (induction ks) (auto simp: indexOf_absent)

lemma checkQueryFields_Some:
  "checkQueryFields ps ks = Some e \<Longrightarrow> \<exists>f. e = UnknownFilterField f \<and> f \<in> set ks \<and> f \<notin> set ps"
  by (induction ks) (auto simp: indexOf_absent split: if_splits)

lemma inclusionLoop_error: "inclusionLoop allow ps fs new = Inl e \<Longrightarrow> e = UnknownSelectionField \<and> \<not> allow"
  by (induction fs arbitrary: new) (auto split: if_splits)

lemma inclusionLoop_strict_unknown:
  "\<not> set fs \<subseteq> set ps \<Longrightarrow> inclusionLoop False ps fs new = Inl UnknownSelectionField"
  by (induction fs arbitrary: new) (auto simp: indexOf_present)

lemma inclusionLoop_entries:
  "inclusionLoop allow ps fs new = Inr m \<Longrightarrow>
     set m \<subseteq> set new \<union> (\<lambda>f. (f, included)) ` (set fs \<inter> set ps)"
proof (induction fs arbitrary: new)
  case Nil
  then show ?case by simp
next
  case (Cons f fs)
  show ?case
  proof (cases "f \<in> set ps")
    case True
    with Cons.prems have "inclusionLoop allow ps fs (set_prop new f included) = Inr m"
      by (simp add: indexOf_present)
    then have "set m \<subseteq> set (set_prop new f included) \<union> (\<lambda>f. (f, included)) ` (set fs \<inter> set ps)"
      by (rule Cons.IH)
    moreover have "set (set_prop new f included) \<subseteq> insert (f, included) (set new)"
      by (rule set_set_prop)
    moreover have "(f, included) \<in> (\<lambda>f. (f, included)) ` (set (f # fs) \<inter> set ps)"
      using True by simp
    moreover have "(\<lambda>f. (f, included)) ` (set fs \<inter> set ps)
        \<subseteq> (\<lambda>f. (f, included)) ` (set (f # fs) \<inter> set ps)"
      by (intro image_mono) auto
    ultimately show ?thesis by blast
  next
    case False
    with Cons.prems have "inclusionLoop allow ps fs new = Inr m"
      by (simp add: indexOf_present split: if_splits)
    then have "set m \<subseteq> set new \<union> (\<lambda>f. (f, included)) ` (set fs \<inter> set ps)"
      by (rule Cons.IH)
    moreover have "(\<lambda>f. (f, included)) ` (set fs \<inter> set ps)
        \<subseteq> (\<lambda>f. (f, included)) ` (set (f # fs) \<inter> set ps)"
      by (intro image_mono) auto
    ultimately show ?thesis by blast
  qed
qed

lemma inclusionLoop_result:
  "distinct fs \<Longrightarrow> set fs \<inter> set (keys new) = {} \<Longrightarrow> allow \<or> set fs \<subseteq> set ps \<Longrightarrow>
     inclusionLoop allow ps fs new
       = Inr (new @ map (\<lambda>f. (f, included)) (filter (\<lambda>f. f \<in> set ps) fs))"
proof (induction fs arbitrary: new)
  case Nil
  then show ?case by simp
next
  case (Cons f fs)
  show ?case
  proof (cases "f \<in> set ps")
    case True
    from Cons.prems have fresh: "f \<notin> set (keys new)" by auto
    have eq: "set_prop new f included = new @ [(f, included)]"
      using fresh by (rule set_prop_fresh)
    have "set fs \<inter> set (keys (new @ [(f, included)])) = {}"
      using Cons.prems by (auto simp: keys_def)
    moreover have "distinct fs" "allow \<or> set fs \<subseteq> set ps" using Cons.prems by auto
    ultimately have "inclusionLoop allow ps fs (new @ [(f, included)])
        = Inr ((new @ [(f, included)]) @ map (\<lambda>f. (f, included)) (filter (\<lambda>f. f \<in> set ps) fs))"
      by (intro Cons.IH)
    with True eq show ?thesis by (simp add: indexOf_present)
  next
    case False
    with Cons.prems have allow by auto
    have "inclusionLoop allow ps fs new
        = Inr (new @ map (\<lambda>f. (f, included)) (filter (\<lambda>f. f \<in> set ps) fs))"
      using Cons.prems by (intro Cons.IH) auto
    with False \<open>allow\<close> show ?thesis by (simp add: indexOf_present)
  qed
qed

lemma exclusionLoop_entries:
  "set (exclusionLoop P ps new) \<subseteq> set new \<union> (\<lambda>p. (p, included)) ` set ps"
proof (induction ps arbitrary: new)
  case Nil
  show ?case by simp
next
  case (Cons p ps)
  define new' where "new' = (if get_prop P p \<noteq> Some excluded then set_prop new p included else new)"
  have step: "exclusionLoop P (p # ps) new = exclusionLoop P ps new'"
    by (simp add: new'_def)
  have "set new' \<subseteq> insert (p, included) (set new)"
    using set_set_prop [of new p included] by (auto simp: new'_def)
  moreover have "set (exclusionLoop P ps new') \<subseteq> set new' \<union> (\<lambda>p. (p, included)) ` set ps"
    by (rule Cons.IH)
  ultimately have "set (exclusionLoop P ps new') \<subseteq> set new \<union> (\<lambda>p. (p, included)) ` set (p # ps)"
    by auto
  with step show ?case by simp
qed

lemma exclusionLoop_result:
  "distinct ps \<Longrightarrow> set ps \<inter> set (keys new) = {} \<Longrightarrow>
     exclusionLoop P ps new
       = new @ map (\<lambda>p. (p, included)) (filter (\<lambda>p. get_prop P p \<noteq> Some excluded) ps)"
proof (induction ps arbitrary: new)
  case Nil
  show ?case by simp
next
  case (Cons p ps)
  show ?case
  proof (cases "get_prop P p \<noteq> Some excluded")
    case True
    from Cons.prems have "p \<notin> set (keys new)" by auto
    then have eq: "set_prop new p included = new @ [(p, included)]"
      by (rule set_prop_fresh)
    have "exclusionLoop P ps (new @ [(p, included)])
        = (new @ [(p, included)]) @ map (\<lambda>p. (p, included)) (filter (\<lambda>p. get_prop P p \<noteq> Some excluded) ps)"
      using Cons.prems by (intro Cons.IH) (auto simp: keys_def)
    with True eq show ?thesis by simp
  next
    case False
    have "exclusionLoop P ps new
        = new @ map (\<lambda>p. (p, included)) (filter (\<lambda>p. get_prop P p \<noteq> Some excluded) ps)"
      using Cons.prems by (intro Cons.IH) auto
    with False show ?thesis by simp
  qed
qed

lemma get_prop_uniform:
  "uniform v P \<Longrightarrow> get_prop P k = (if k \<in> set (keys P) then Some v else None)"
  by (induction P) (auto simp: uniform_def get_prop_def keys_def)

lemma uniform_map_keys: "uniform v P \<Longrightarrow> map (\<lambda>f. (f, v)) (keys P) = P"
  by (induction P) (auto simp: uniform_def keys_def)

lemma get_prop_first: "P \<noteq> [] \<Longrightarrow> get_prop P (keys P ! 0) = Some (snd (hd P))"
  by (cases P) (auto simp: get_prop_def keys_def)


lemma fold_set_prop_entries:
  "set (fold (\<lambda>f ob. set_prop ob f v) names ob) \<subseteq> set ob \<union> (\<lambda>f. (f, v)) ` set names"
proof (induction names arbitrary: ob)
  case Nil
  show ?case by simp
next
  case (Cons n names)
  have "set (fold (\<lambda>f ob. set_prop ob f v) names (set_prop ob n v))
      \<subseteq> set (set_prop ob n v) \<union> (\<lambda>f. (f, v)) ` set names"
    by (rule Cons.IH)
  moreover have "set (set_prop ob n v) \<subseteq> insert (n, v) (set ob)"
    by (rule set_set_prop)
  ultimately have "set (fold (\<lambda>f ob. set_prop ob f v) names (set_prop ob n v))
      \<subseteq> set ob \<union> (\<lambda>f. (f, v)) ` set (n # names)"
    by auto
  then show ?case by simp
qed

lemma excluded_count:
  assumes "distinct ps" "distinct ks"
  shows "int (length (filter (\<lambda>p. p \<notin> set ks) ps)) = int (length ps) - int (length ks)
           \<longleftrightarrow> set ks \<subseteq> set ps"
proof -
  have len: "length (filter (\<lambda>p. p \<notin> set ks) ps) + length (filter (\<lambda>p. p \<in> set ks) ps) = length ps"
    using sum_length_filter_compl [of "\<lambda>p. p \<notin> set ks" ps] by simp
  have "length (filter (\<lambda>p. p \<in> set ks) ps) = card (set ps \<inter> set ks)"
  proof -
    have "set (filter (\<lambda>p. p \<in> set ks) ps) = set ps \<inter> set ks" by auto
    moreover have "distinct (filter (\<lambda>p. p \<in> set ks) ps)" using assms(1) by simp
    ultimately show ?thesis using distinct_card [of "filter (\<lambda>p. p \<in> set ks) ps"] by simp
  qed
  moreover have "length ks = card (set ks)" using assms(2) by (simp add: distinct_card)
  moreover have "card (set ps \<inter> set ks) = card (set ks) \<longleftrightarrow> set ks \<subseteq> set ps"
  proof
    assume "card (set ps \<inter> set ks) = card (set ks)"
    then have "set ps \<inter> set ks = set ks" by (intro card_subset_eq) auto
    then show "set ks \<subseteq> set ps" by auto
  next
    assume "set ks \<subseteq> set ps"
    then have "set ps \<inter> set ks = set ks" by auto
    then show "card (set ps \<inter> set ks) = card (set ks)" by simp
  qed
  ultimately show ?thesis using len by auto
qed

lemma keys_set_prop:
  "keys (set_prop ob k v) = (if k \<in> set (keys ob) then keys ob else keys ob @ [k])"
  by (induction ob) (force simp: keys_def)+

lemma wellFormed_set_prop: "wellFormed ob \<Longrightarrow> wellFormed (set_prop ob k v)"
  by (simp add: wellFormed_def keys_set_prop)

lemma wellFormed_fold_set_prop:
  "wellFormed ob \<Longrightarrow> wellFormed (fold (\<lambda>f ob. set_prop ob f v) names ob)"
  by (induction names arbitrary: ob) (simp_all add: wellFormed_set_prop)

lemma wellFormed_inclusionLoop:
  "inclusionLoop allow ps fs new = Inr m \<Longrightarrow> wellFormed new \<Longrightarrow> wellFormed m"
  by (induction fs arbitrary: new) (auto simp: wellFormed_set_prop split: if_splits)

lemma wellFormed_exclusionLoop:
  "wellFormed new \<Longrightarrow> wellFormed (exclusionLoop P ps new)"
  by (induction ps arbitrary: new) (simp_all add: wellFormed_set_prop)

text \<open>
  The branches of \<^verbatim>\<open>restrictSelect\<close>: step 1 throwing, and the three cases of step 2 once
  step 1 has passed.
\<close>

lemma filterPasses_check:
  "filterPasses pl q \<Longrightarrow>
     (if \<not> allowNonModelQueryParameters pl
      then checkQueryFields (paths pl) (keys (conditions q)) else None) = None"
  by (auto simp: filterPasses_def checkQueryFields_None list_all_iff)

lemma branch_empty:
  "filterPasses pl q \<Longrightarrow> projection q = [] \<Longrightarrow>
     restrictSelect pl q = (Next, select (join (paths pl) '' '') q)"
  by (simp add: restrictSelect_def filterPasses_check projection_def keys_def)

lemma branch_inclusion:
  "filterPasses pl q \<Longrightarrow> inclusionMode (projection q) \<Longrightarrow>
     restrictSelect pl q =
       (case inclusionLoop (allowNonModelSelectionParameters pl) (paths pl)
               (keys (projection q)) [] of
          Inl e \<Rightarrow> (Threw e, q)
        | Inr newSelectQuery \<Rightarrow> (Next, q\<lparr>fields_obj := Some newSelectQuery\<rparr>))"
  using get_prop_first [of "projection q"]
  by (simp add: restrictSelect_def filterPasses_check projection_def inclusionMode_def keys_def)

lemma branch_exclusion:
  "filterPasses pl q \<Longrightarrow> projection q \<noteq> [] \<Longrightarrow> snd (hd (projection q)) \<noteq> included \<Longrightarrow>
     restrictSelect pl q =
       (let newSelectQuery = exclusionLoop (projection q) (paths pl) []
        in if int (length (keys newSelectQuery))
                \<noteq> int (length (paths pl)) - int (length (keys (projection q)))
              \<and> \<not> allowNonModelSelectionParameters pl
           then (Threw UnknownSelectionField, q)
           else (Next, q\<lparr>fields_obj := Some newSelectQuery\<rparr>))"
  using get_prop_first [of "projection q"]
  by (simp add: restrictSelect_def filterPasses_check projection_def keys_def Let_def)

lemma step1_throws:
  "\<not> allowNonModelQueryParameters pl \<Longrightarrow> checkQueryFields (paths pl) (keys (conditions q)) = Some e \<Longrightarrow>
     restrictSelect pl q = (Threw e, q)"
  by (simp add: restrictSelect_def)

lemma step1_fails:
  assumes "\<not> filterPasses pl q"
  shows "\<exists>f. f \<in> set (keys (conditions q)) \<and> f \<notin> set (paths pl)
           \<and> restrictSelect pl q = (Threw (UnknownFilterField f), q)"
proof -
  from assms have strict: "\<not> allowNonModelQueryParameters pl"
    and "\<not> set (keys (conditions q)) \<subseteq> set (paths pl)"
    by (auto simp: filterPasses_def list_all_iff)
  then have "checkQueryFields (paths pl) (keys (conditions q)) \<noteq> None"
    by (simp add: checkQueryFields_None)
  then obtain e where e: "checkQueryFields (paths pl) (keys (conditions q)) = Some e"
    by auto
  from checkQueryFields_Some [OF e] obtain f
    where "e = UnknownFilterField f" "f \<in> set (keys (conditions q))" "f \<notin> set (paths pl)"
    by auto
  with step1_throws [OF strict e] show ?thesis by auto
qed

lemma entries_uniform:
  "set m \<subseteq> (\<lambda>f. (f, v)) ` A \<Longrightarrow> uniform v m \<and> set (keys m) \<subseteq> A"
  by (auto simp: uniform_def keys_def list_all_iff)

lemma step2_outcome:
  assumes pass: "filterPasses pl q"
  shows "fst (restrictSelect pl q) = Next \<or> fst (restrictSelect pl q) = Threw UnknownSelectionField"
proof -
  consider (A) "projection q = []"
    | (B) "inclusionMode (projection q)"
    | (C) "projection q \<noteq> []" "snd (hd (projection q)) \<noteq> included"
    by (auto simp: inclusionMode_def)
  then show ?thesis
  proof cases
    case A
    show ?thesis by (simp add: branch_empty [OF pass A])
  next
    case B
    show ?thesis
    proof (cases "inclusionLoop (allowNonModelSelectionParameters pl) (paths pl)
                    (keys (projection q)) []")
      case (Inl e)
      with inclusionLoop_error [OF Inl] show ?thesis
        by (simp add: branch_inclusion [OF pass B])
    next
      case (Inr m)
      then show ?thesis by (simp add: branch_inclusion [OF pass B])
    qed
  next
    case C
    show ?thesis by (simp add: branch_exclusion [OF pass C] Let_def)
  qed
qed

lemma lenient_conditions_irrelevant:
  assumes lenient: "allowNonModelQueryParameters pl"
  shows "fst (restrictSelect pl (q\<lparr>conditions := c\<rparr>)) = fst (restrictSelect pl q)"
proof -
  let ?q' = "q\<lparr>conditions := c\<rparr>"
  have pass: "filterPasses pl q" and pass': "filterPasses pl ?q'"
    using lenient by (simp_all add: filterPasses_def)
  have proj: "projection ?q' = projection q" by (simp add: projection_def)
  consider (A) "projection q = []"
    | (B) "inclusionMode (projection q)"
    | (C) "projection q \<noteq> []" "snd (hd (projection q)) \<noteq> included"
    by (auto simp: inclusionMode_def)
  then show ?thesis
  proof cases
    case A
    then have A': "projection ?q' = []" by (simp add: proj)
    show ?thesis
      by (simp add: branch_empty [OF pass A] branch_empty [OF pass' A'])
  next
    case B
    then have B': "inclusionMode (projection ?q')" by (simp add: proj)
    show ?thesis
      by (simp add: branch_inclusion [OF pass B] branch_inclusion [OF pass' B']
            proj split: sum.splits)
  next
    case C
    then have C': "projection ?q' \<noteq> []" "snd (hd (projection ?q')) \<noteq> included"
      by (simp_all add: proj)
    show ?thesis
      by (simp add: branch_exclusion [OF pass C] branch_exclusion [OF pass' C']
            proj Let_def)
  qed
qed

lemma uniform_excluded_filter:
  "uniform excluded P \<Longrightarrow>
     filter (\<lambda>p. get_prop P p \<noteq> Some excluded) ps = filter (\<lambda>p. p \<notin> set (keys P)) ps"
  by (rule filter_cong) (simp_all add: get_prop_uniform)

lemma branch_exclusion_uniform:
  assumes pass: "filterPasses pl q"
    and dist: "distinct (paths pl)"
    and mode: "exclusionMode (projection q)"
  shows "exclusionLoop (projection q) (paths pl) []
           = map (\<lambda>p. (p, included)) (filter (\<lambda>p. p \<notin> set (keys (projection q))) (paths pl))"
    and "restrictSelect pl q =
           (if int (length (filter (\<lambda>p. p \<notin> set (keys (projection q))) (paths pl)))
                 \<noteq> int (length (paths pl)) - int (length (keys (projection q)))
               \<and> \<not> allowNonModelSelectionParameters pl
            then (Threw UnknownSelectionField, q)
            else (Next, q\<lparr>fields_obj := Some (map (\<lambda>p. (p, included))
                    (filter (\<lambda>p. p \<notin> set (keys (projection q))) (paths pl)))\<rparr>))"
proof -
  from mode have ne: "projection q \<noteq> []" and un: "uniform excluded (projection q)"
    by (simp_all add: exclusionMode_def)
  from ne un have first: "snd (hd (projection q)) \<noteq> included"
    by (cases "projection q") (auto simp: uniform_def)
  have "exclusionLoop (projection q) (paths pl) []
      = [] @ map (\<lambda>p. (p, included))
                 (filter (\<lambda>p. get_prop (projection q) p \<noteq> Some excluded) (paths pl))"
    using dist by (intro exclusionLoop_result) (simp_all add: keys_def)
  then show loop: "exclusionLoop (projection q) (paths pl) []
      = map (\<lambda>p. (p, included)) (filter (\<lambda>p. p \<notin> set (keys (projection q))) (paths pl))"
    by (simp add: uniform_excluded_filter [OF un])
  show "restrictSelect pl q =
           (if int (length (filter (\<lambda>p. p \<notin> set (keys (projection q))) (paths pl)))
                 \<noteq> int (length (paths pl)) - int (length (keys (projection q)))
               \<and> \<not> allowNonModelSelectionParameters pl
            then (Threw UnknownSelectionField, q)
            else (Next, q\<lparr>fields_obj := Some (map (\<lambda>p. (p, included))
                    (filter (\<lambda>p. p \<notin> set (keys (projection q))) (paths pl)))\<rparr>))"
    unfolding branch_exclusion [OF pass ne first] loop
    by (simp add: Let_def keys_def)
qed

lemma inclusionLoop_all_unknown:
  "\<forall>k \<in> set fs. k \<notin> set ps \<Longrightarrow> inclusionLoop True ps fs new = Inr new"
  by (induction fs arbitrary: new) (simp_all add: indexOf_present)

text \<open>
  The string handed to \<open>select\<close>: joining well named names with single spaces and
  splitting at white space gives the names back, and each is entered with the marker
  \<^verbatim>\<open>1\<close>. The keys of what the setter and the two projection loops build.
\<close>

lemma splitWhite_nonempty: "splitWhite s \<noteq> []"
  by (induction s) (auto split: list.splits)

lemma splitWhite_plain: "list_all (\<lambda>c. \<not> isWhiteSpace c) x \<Longrightarrow> splitWhite x = [x]"
  by (induction x) simp_all

lemma splitWhite_append:
  "list_all (\<lambda>c. \<not> isWhiteSpace c) x \<Longrightarrow>
     splitWhite (x @ CHR '' '' # rest) = x # splitWhite rest"
  by (induction x) (simp_all add: isWhiteSpace_def)

lemma splitWhite_join:
  "list_all wellNamed ps \<Longrightarrow> ps \<noteq> [] \<Longrightarrow> splitWhite (join ps '' '') = ps"
proof (induction ps "'' ''" rule: join.induct)
  case 1
  then show ?case by simp
next
  case (2 x)
  then show ?case by (simp add: wellNamed_def splitWhite_plain)
next
  case (3 x y ys)
  then have "splitWhite (join (y # ys) '' '') = y # ys" by simp
  moreover have "list_all (\<lambda>c. \<not> isWhiteSpace c) x" using 3 by (simp add: wellNamed_def)
  ultimately show ?case by (simp add: splitWhite_append)
qed

lemma join_nonempty: "list_all wellNamed ps \<Longrightarrow> ps \<noteq> [] \<Longrightarrow> join ps '' '' \<noteq> []"
  by (induction ps "'' ''" rule: join.induct) (simp_all add: wellNamed_def)

lemma selectField_wellNamed: "wellNamed f \<Longrightarrow> selectField ob f = set_prop ob f included"
  by (cases f) (simp_all add: selectField_def wellNamed_def)

lemma fold_selectField_wellNamed:
  "list_all wellNamed ps \<Longrightarrow>
     fold (\<lambda>field ob. selectField ob field) ps ob = fold (\<lambda>f ob. set_prop ob f included) ps ob"
  by (induction ps arbitrary: ob) (simp_all add: selectField_wellNamed)

lemma select_join_wellNamed:
  assumes named: "list_all wellNamed ps" and empty: "projection q = []"
  shows "conditions (select (join ps '' '') q) = conditions q"
    and "projection (select (join ps '' '') q) = fold (\<lambda>f ob. set_prop ob f included) ps []"
proof -
  show "conditions (select (join ps '' '') q) = conditions q"
    by (simp add: select_def)
  show "projection (select (join ps '' '') q) = fold (\<lambda>f ob. set_prop ob f included) ps []"
  proof (cases "ps = []")
    case True
    with empty show ?thesis by (simp add: select_def)
  next
    case False
    with named have "join ps '' '' \<noteq> []" and "splitWhite (join ps '' '') = ps"
      by (simp_all add: join_nonempty splitWhite_join)
    moreover have "(case fields_obj q of None \<Rightarrow> [] | Some ob \<Rightarrow> ob) = []"
      using empty by (simp add: projection_def)
    ultimately show ?thesis
      by (simp add: select_def projection_def fold_selectField_wellNamed [OF named])
  qed
qed

lemma select_conditions: "conditions (select arg q) = conditions q"
  by (simp add: select_def)

lemma set_keys_set_prop: "set (keys (set_prop ob k v)) = insert k (set (keys ob))"
  by (auto simp: keys_set_prop)

lemma fold_set_prop_keys:
  "set (keys (fold (\<lambda>f ob. set_prop ob f v) names ob)) = set (keys ob) \<union> set names"
  by (induction names arbitrary: ob) (auto simp: set_keys_set_prop)

lemma inclusionLoop_keys:
  "inclusionLoop allow ps fs new = Inr m \<Longrightarrow>
     set (keys m) = set (keys new) \<union> (set fs \<inter> set ps)"
proof (induction fs arbitrary: new)
  case Nil
  then show ?case by simp
next
  case (Cons f fs)
  show ?case
  proof (cases "f \<in> set ps")
    case True
    with Cons.prems have "inclusionLoop allow ps fs (set_prop new f included) = Inr m"
      by (simp add: indexOf_present)
    from Cons.IH [OF this] True show ?thesis by (auto simp: set_keys_set_prop)
  next
    case False
    with Cons.prems have "inclusionLoop allow ps fs new = Inr m"
      by (simp add: indexOf_present split: if_splits)
    from Cons.IH [OF this] False show ?thesis by auto
  qed
qed

lemma exclusionLoop_keys:
  "set (keys (exclusionLoop P ps new))
     = set (keys new) \<union> {p \<in> set ps. get_prop P p \<noteq> Some excluded}"
  by (induction ps arbitrary: new) (auto simp: set_keys_set_prop)

lemma uniform_included_mode: "uniform included m \<Longrightarrow> m = [] \<or> inclusionMode m"
  by (cases m) (simp_all add: uniform_def inclusionMode_def)

section \<open>The properties of the guard\<close>

text \<open>
  C1, as amended. Whenever \<^verbatim>\<open>restrictSelect\<close> returns without throwing, and provided that,
  when the projection it received has no key, every name of \<^verbatim>\<open>paths\<close> is well named (not
  empty, no leading \<^verbatim>\<open>-\<close>, no white space): the query it leaves differs from the one it
  received in the projection only; the final projection is an object whose markers are all
  \<^verbatim>\<open>1\<close> and whose keys are all in \<^verbatim>\<open>paths\<close>; it is in inclusion mode or has no key at all; and
  its keys are all of \<^verbatim>\<open>paths\<close> in the empty branch, the requested keys that are in \<^verbatim>\<open>paths\<close>
  in the inclusion branch, and the paths not mapped to \<^verbatim>\<open>0\<close> in the exclusion branch.
\<close>

theorem final_projection_within_schema:
  assumes run: "restrictSelect pl q = (Next, q')"
    and named: "projection q = [] \<longrightarrow> list_all wellNamed (paths pl)"
  shows "q' = q\<lparr>fields_obj := fields_obj q'\<rparr>
       \<and> wellFormed (projection q') \<and> uniform included (projection q')
       \<and> set (keys (projection q')) \<subseteq> set (paths pl)
       \<and> (projection q' = [] \<or> inclusionMode (projection q'))
       \<and> set (keys (projection q'))
           = (if projection q = [] then set (paths pl)
              else if inclusionMode (projection q)
                   then set (keys (projection q)) \<inter> set (paths pl)
                   else {p \<in> set (paths pl). get_prop (projection q) p \<noteq> Some excluded})"
proof -
  have pass: "filterPasses pl q"
    using run step1_fails [of pl q] by auto
  have wf0: "wellFormed []" by (simp add: wellFormed_def keys_def)
  have k0: "keys [] = []" by (simp add: keys_def)
  consider (A) "projection q = []"
    | (B) "inclusionMode (projection q)"
    | (C) "projection q \<noteq> []" "snd (hd (projection q)) \<noteq> included"
    by (auto simp: inclusionMode_def)
  then show ?thesis
  proof cases
    case A
    with named have ps: "list_all wellNamed (paths pl)" by simp
    define m where "m = fold (\<lambda>f ob. set_prop ob f included) (paths pl) []"
    from run branch_empty [OF pass A] have q': "q' = select (join (paths pl) '' '') q"
      by simp
    have proj: "projection q' = m"
      unfolding q' m_def using ps A by (rule select_join_wellNamed(2))
    have same: "q' = q\<lparr>fields_obj := fields_obj q'\<rparr>"
      unfolding q' by (simp add: select_def)
    have "set m \<subseteq> (\<lambda>f. (f, included)) ` set (paths pl)"
      using fold_set_prop_entries [of included "paths pl" "[]"] by (simp add: m_def)
    then have un: "uniform included m \<and> set (keys m) \<subseteq> set (paths pl)"
      by (rule entries_uniform)
    have wf: "wellFormed m"
      unfolding m_def using wf0 by (rule wellFormed_fold_set_prop)
    have ks: "set (keys m) = set (paths pl)"
      unfolding m_def by (simp add: fold_set_prop_keys k0)
    from un have "m = [] \<or> inclusionMode m" by (simp add: uniform_included_mode)
    with same un wf ks A show ?thesis by (simp add: proj)
  next
    case B
    then have ne: "projection q \<noteq> []" by (simp add: inclusionMode_def)
    from run branch_inclusion [OF pass B] obtain m
      where loop: "inclusionLoop (allowNonModelSelectionParameters pl) (paths pl)
                     (keys (projection q)) [] = Inr m"
        and q': "q' = q\<lparr>fields_obj := Some m\<rparr>"
      by (auto split: sum.splits)
    have proj: "projection q' = m" by (simp add: q' projection_def)
    have same: "q' = q\<lparr>fields_obj := fields_obj q'\<rparr>" by (simp add: q')
    from inclusionLoop_entries [OF loop]
    have "set m \<subseteq> (\<lambda>f. (f, included)) ` (set (keys (projection q)) \<inter> set (paths pl))"
      by simp
    then have "uniform included m \<and> set (keys m) \<subseteq> set (keys (projection q)) \<inter> set (paths pl)"
      by (rule entries_uniform)
    then have un: "uniform included m" and sub: "set (keys m) \<subseteq> set (paths pl)" by auto
    have wf: "wellFormed m" using loop wf0 by (rule wellFormed_inclusionLoop)
    have ks: "set (keys m) = set (keys (projection q)) \<inter> set (paths pl)"
      using inclusionLoop_keys [OF loop] by (simp add: k0)
    from un have "m = [] \<or> inclusionMode m" by (rule uniform_included_mode)
    with same un sub wf ks B ne show ?thesis by (simp add: proj)
  next
    case C
    then have notB: "\<not> inclusionMode (projection q)" by (simp add: inclusionMode_def)
    define m where "m = exclusionLoop (projection q) (paths pl) []"
    have q': "q' = q\<lparr>fields_obj := Some m\<rparr>"
      using run branch_exclusion [OF pass C]
      by (simp add: m_def Let_def split: if_splits)
    have proj: "projection q' = m" by (simp add: q' projection_def)
    have same: "q' = q\<lparr>fields_obj := fields_obj q'\<rparr>" by (simp add: q')
    have "set m \<subseteq> (\<lambda>f. (f, included)) ` set (paths pl)"
      using exclusionLoop_entries [of "projection q" "paths pl" "[]"] by (simp add: m_def)
    then have "uniform included m \<and> set (keys m) \<subseteq> set (paths pl)"
      by (rule entries_uniform)
    then have un: "uniform included m" and sub: "set (keys m) \<subseteq> set (paths pl)" by auto
    have wf: "wellFormed m"
      unfolding m_def using wf0 by (rule wellFormed_exclusionLoop)
    have ks: "set (keys m) = {p \<in> set (paths pl). get_prop (projection q) p \<noteq> Some excluded}"
      unfolding m_def by (simp add: exclusionLoop_keys k0)
    from un have "m = [] \<or> inclusionMode m" by (rule uniform_included_mode)
    with same un sub wf ks C(1) notB show ?thesis by (simp add: proj)
  qed
qed

theorem final_projection_within_schema_witness:
  "restrictSelect
      \<lparr>allowNonModelQueryParameters = False, allowNonModelSelectionParameters = False,
         paths = [''name'', ''email'', ''age'']\<rparr>
      \<lparr>conditions = [], fields_obj = Some [(''age'', excluded)]\<rparr>
     = (Next, \<lparr>conditions = [], fields_obj = Some [(''name'', included), (''email'', included)]\<rparr>)
   \<and> uniform included [(''name'', included), (''email'', included)]
   \<and> inclusionMode [(''name'', included), (''email'', included)]
   \<and> set (keys [(''name'', included), (''email'', included)]) \<subseteq> set [''name'', ''email'', ''age'']"
proof -
  let ?pl = "\<lparr>allowNonModelQueryParameters = False, allowNonModelSelectionParameters = False,
         paths = [''name'', ''email'', ''age'']\<rparr>"
  let ?q = "\<lparr>conditions = [], fields_obj = Some [(''age'', excluded)]\<rparr>"
  let ?q' = "\<lparr>conditions = [], fields_obj = Some [(''name'', included), (''email'', included)]\<rparr>"
  have run: "restrictSelect ?pl ?q = (Next, ?q')"
    by (simp add: restrictSelect_def keys_def get_prop_def)
  have named: "projection ?q = [] \<longrightarrow> list_all wellNamed (paths ?pl)"
    by (simp add: projection_def)
  from final_projection_within_schema [OF run named]
  have "uniform included (projection ?q')"
    and "set (keys (projection ?q')) \<subseteq> set (paths ?pl)"
    and "projection ?q' = [] \<or> inclusionMode (projection ?q')"
    by blast+
  with run show ?thesis
    by (simp add: projection_def)
qed

text \<open>
  The statement without the amendments fails twice. With the paths \<^verbatim>\<open>name\<close> and \<^verbatim>\<open>-age\<close> and
  no projection, the string \<^verbatim>\<open>name -age\<close> reaches the setter, and the final projection marks
  \<^verbatim>\<open>age\<close>, which is no path, with \<^verbatim>\<open>0\<close>. With the selection flag set and the projection
  \<^verbatim>\<open>{ssn: 1}\<close>, the final projection has no key, so it is not in inclusion mode.
\<close>

theorem final_projection_within_schema_counterexample:
  "restrictSelect
      \<lparr>allowNonModelQueryParameters = False, allowNonModelSelectionParameters = False,
         paths = [''name'', ''-age'']\<rparr>
      \<lparr>conditions = [], fields_obj = None\<rparr>
     = (Next, \<lparr>conditions = [], fields_obj = Some [(''name'', included), (''age'', excluded)]\<rparr>)
   \<and> \<not> uniform included [(''name'', included), (''age'', excluded)]
   \<and> \<not> set (keys [(''name'', included), (''age'', excluded)]) \<subseteq> set [''name'', ''-age'']
   \<and> restrictSelect
      \<lparr>allowNonModelQueryParameters = False, allowNonModelSelectionParameters = True,
         paths = [''name'', ''email'', ''age'']\<rparr>
      \<lparr>conditions = [], fields_obj = Some [(''ssn'', included)]\<rparr>
     = (Next, \<lparr>conditions = [], fields_obj = Some []\<rparr>)
   \<and> \<not> inclusionMode []"
  by (simp add: restrictSelect_def keys_def get_prop_def select_def selectField_def
        isWhiteSpace_def uniform_def inclusionMode_def)




text \<open>
  C3. With \<^verbatim>\<open>allowNonModelQueryParameters\<close> unset, the call throws the filter error if and only
  if some key of the filter conditions is not in \<^verbatim>\<open>paths\<close>. With the flag set it never throws
  the filter error, and how the call ends does not depend on the filter conditions at all.
\<close>

theorem filter_validation_iff:
  "(\<not> allowNonModelQueryParameters pl \<longrightarrow>
      ((\<exists>f. fst (restrictSelect pl q) = Threw (UnknownFilterField f))
         \<longleftrightarrow> (\<exists>k \<in> set (keys (conditions q)). k \<notin> set (paths pl))))
   \<and> (allowNonModelQueryParameters pl \<longrightarrow>
        (\<forall>f. fst (restrictSelect pl q) \<noteq> Threw (UnknownFilterField f))
        \<and> (\<forall>c. fst (restrictSelect pl (q\<lparr>conditions := c\<rparr>)) = fst (restrictSelect pl q)))"
proof (intro conjI impI)
  assume strict: "\<not> allowNonModelQueryParameters pl"
  show "(\<exists>f. fst (restrictSelect pl q) = Threw (UnknownFilterField f))
          \<longleftrightarrow> (\<exists>k \<in> set (keys (conditions q)). k \<notin> set (paths pl))"
  proof
    assume thrown: "\<exists>f. fst (restrictSelect pl q) = Threw (UnknownFilterField f)"
    have "\<not> filterPasses pl q"
    proof
      assume "filterPasses pl q"
      from step2_outcome [OF this] thrown show False by auto
    qed
    then show "\<exists>k \<in> set (keys (conditions q)). k \<notin> set (paths pl)"
      by (auto simp: filterPasses_def list_all_iff)
  next
    assume "\<exists>k \<in> set (keys (conditions q)). k \<notin> set (paths pl)"
    with strict have "\<not> filterPasses pl q"
      by (auto simp: filterPasses_def list_all_iff)
    from step1_fails [OF this]
    show "\<exists>f. fst (restrictSelect pl q) = Threw (UnknownFilterField f)" by auto
  qed
next
  assume lenient: "allowNonModelQueryParameters pl"
  then have "filterPasses pl q" by (simp add: filterPasses_def)
  from step2_outcome [OF this]
  show "\<forall>f. fst (restrictSelect pl q) \<noteq> Threw (UnknownFilterField f)" by auto
next
  assume lenient: "allowNonModelQueryParameters pl"
  then show "\<forall>c. fst (restrictSelect pl (q\<lparr>conditions := c\<rparr>)) = fst (restrictSelect pl q)"
    by (simp add: lenient_conditions_irrelevant)
qed

theorem filter_validation_iff_witness:
  "(\<exists>f. fst (restrictSelect
        \<lparr>allowNonModelQueryParameters = False, allowNonModelSelectionParameters = False,
         paths = [''name'', ''email'', ''age'']\<rparr>
        \<lparr>conditions = [(''ssn'', Other)], fields_obj = None\<rparr>) = Threw (UnknownFilterField f))
   \<and> (\<forall>f. fst (restrictSelect
        \<lparr>allowNonModelQueryParameters = True, allowNonModelSelectionParameters = False,
         paths = [''name'', ''email'', ''age'']\<rparr>
        \<lparr>conditions = [(''ssn'', Other)], fields_obj = None\<rparr>) \<noteq> Threw (UnknownFilterField f))"
  using filter_validation_iff [of "\<lparr>allowNonModelQueryParameters = False, allowNonModelSelectionParameters = False, paths = [''name'', ''email'', ''age'']\<rparr>" "\<lparr>conditions = [(''ssn'', Other)], fields_obj = None\<rparr>"]
    filter_validation_iff [of "\<lparr>allowNonModelQueryParameters = True, allowNonModelSelectionParameters = False, paths = [''name'', ''email'', ''age'']\<rparr>" "\<lparr>conditions = [(''ssn'', Other)], fields_obj = None\<rparr>"]
  by (simp add: keys_def)

text \<open>
  C4. Step 1 passed and the projection takes the inclusion branch (first marker \<^verbatim>\<open>1\<close>, which
  every projection in inclusion mode does) and has a key outside \<^verbatim>\<open>paths\<close>: with
  \<^verbatim>\<open>allowNonModelSelectionParameters\<close> set the call returns and the final projection marks
  with \<^verbatim>\<open>1\<close> exactly the requested keys that are in \<^verbatim>\<open>paths\<close>, in the order requested;
  otherwise it throws the selection error.
\<close>

theorem inclusion_unknown_field:
  assumes pass: "filterPasses pl q"
    and wf: "wellFormed (projection q)"
    and mode: "inclusionMode (projection q)"
    and unknown: "\<exists>k \<in> set (keys (projection q)). k \<notin> set (paths pl)"
  shows "restrictSelect pl q =
           (if allowNonModelSelectionParameters pl
            then (Next, q\<lparr>fields_obj := Some (map (\<lambda>f. (f, included))
                           (filter (\<lambda>f. f \<in> set (paths pl)) (keys (projection q))))\<rparr>)
            else (Threw UnknownSelectionField, q))"
proof (cases "allowNonModelSelectionParameters pl")
  case True
  have "inclusionLoop True (paths pl) (keys (projection q)) []
      = Inr ([] @ map (\<lambda>f. (f, included)) (filter (\<lambda>f. f \<in> set (paths pl)) (keys (projection q))))"
    using wf by (intro inclusionLoop_result) (simp_all add: wellFormed_def keys_def)
  with True show ?thesis by (simp add: branch_inclusion [OF pass mode])
next
  case False
  from unknown have "\<not> set (keys (projection q)) \<subseteq> set (paths pl)" by auto
  then have "inclusionLoop False (paths pl) (keys (projection q)) [] = Inl UnknownSelectionField"
    by (rule inclusionLoop_strict_unknown)
  with False show ?thesis by (simp add: branch_inclusion [OF pass mode])
qed

theorem inclusion_unknown_field_witness:
  "restrictSelect
      \<lparr>allowNonModelQueryParameters = False, allowNonModelSelectionParameters = False,
         paths = [''name'', ''email'', ''age'']\<rparr>
      \<lparr>conditions = [], fields_obj = Some [(''name'', included), (''ssn'', included)]\<rparr>
     = (Threw UnknownSelectionField, \<lparr>conditions = [], fields_obj = Some [(''name'', included), (''ssn'', included)]\<rparr>)
   \<and> restrictSelect
      \<lparr>allowNonModelQueryParameters = False, allowNonModelSelectionParameters = True,
         paths = [''name'', ''email'', ''age'']\<rparr>
      \<lparr>conditions = [], fields_obj = Some [(''name'', included), (''ssn'', included)]\<rparr>
     = (Next, \<lparr>conditions = [], fields_obj = Some [(''name'', included)]\<rparr>)"
proof -
  let ?q = "\<lparr>conditions = [], fields_obj = Some [(''name'', included), (''ssn'', included)]\<rparr>"
  have wf: "wellFormed (projection ?q)"
    by (simp add: wellFormed_def projection_def keys_def)
  have mode: "inclusionMode (projection ?q)"
    by (simp add: inclusionMode_def projection_def)
  have pass: "filterPasses pl ?q" for pl
    by (simp add: filterPasses_def keys_def)
  have unknown: "\<exists>k \<in> set (keys (projection ?q)). k \<notin> set [''name'', ''email'', ''age'']"
    by (simp add: projection_def keys_def)
  have "\<exists>k \<in> set (keys (projection ?q)). k \<notin> set (paths
      \<lparr>allowNonModelQueryParameters = False, allowNonModelSelectionParameters = False,
         paths = [''name'', ''email'', ''age'']\<rparr>)"
    using unknown by simp
  from inclusion_unknown_field [OF pass wf mode this]
  have strict: "restrictSelect
      \<lparr>allowNonModelQueryParameters = False, allowNonModelSelectionParameters = False,
         paths = [''name'', ''email'', ''age'']\<rparr> ?q
     = (Threw UnknownSelectionField, ?q)"
    by simp
  have "\<exists>k \<in> set (keys (projection ?q)). k \<notin> set (paths
      \<lparr>allowNonModelQueryParameters = False, allowNonModelSelectionParameters = True,
         paths = [''name'', ''email'', ''age'']\<rparr>)"
    using unknown by simp
  from inclusion_unknown_field [OF pass wf mode this]
  have "restrictSelect
      \<lparr>allowNonModelQueryParameters = False, allowNonModelSelectionParameters = True,
         paths = [''name'', ''email'', ''age'']\<rparr> ?q
     = (Next, \<lparr>conditions = [], fields_obj = Some [(''name'', included)]\<rparr>)"
    by (simp add: projection_def keys_def)
  with strict show ?thesis by simp
qed

text \<open>
  C5. Step 1 passed, \<^verbatim>\<open>paths\<close> has no duplicate and the projection is in exclusion mode. The
  loop builds the object that marks with \<^verbatim>\<open>1\<close> every path not listed for exclusion. The count
  of line 106 differs exactly when some excluded key is not in \<^verbatim>\<open>paths\<close>. The call throws
  the selection error when the count differs and \<^verbatim>\<open>allowNonModelSelectionParameters\<close> is
  unset; in every other case it returns and the built object is the final projection.
\<close>

theorem exclusion_count_check:
  assumes pass: "filterPasses pl q"
    and dist: "distinct (paths pl)"
    and wf: "wellFormed (projection q)"
    and mode: "exclusionMode (projection q)"
  shows "(let P = projection q;
              inc = filter (\<lambda>p. p \<notin> set (keys P)) (paths pl);
              mismatch = (int (length inc) \<noteq> int (length (paths pl)) - int (length (keys P)))
          in exclusionLoop P (paths pl) [] = map (\<lambda>p. (p, included)) inc
             \<and> (mismatch \<longleftrightarrow> (\<exists>k \<in> set (keys P). k \<notin> set (paths pl)))
             \<and> restrictSelect pl q =
                 (if mismatch \<and> \<not> allowNonModelSelectionParameters pl
                  then (Threw UnknownSelectionField, q)
                  else (Next, q\<lparr>fields_obj := Some (map (\<lambda>p. (p, included)) inc)\<rparr>)))"
proof -
  have "int (length (filter (\<lambda>p. p \<notin> set (keys (projection q))) (paths pl)))
          = int (length (paths pl)) - int (length (keys (projection q)))
        \<longleftrightarrow> set (keys (projection q)) \<subseteq> set (paths pl)"
    using dist wf by (intro excluded_count) (simp_all add: wellFormed_def)
  then have "(int (length (filter (\<lambda>p. p \<notin> set (keys (projection q))) (paths pl)))
          \<noteq> int (length (paths pl)) - int (length (keys (projection q))))
        \<longleftrightarrow> (\<exists>k \<in> set (keys (projection q)). k \<notin> set (paths pl))"
    by blast
  with branch_exclusion_uniform [OF pass dist mode] show ?thesis
    unfolding Let_def by simp
qed

theorem exclusion_count_check_witness:
  "restrictSelect
      \<lparr>allowNonModelQueryParameters = False, allowNonModelSelectionParameters = False,
         paths = [''name'', ''email'', ''age'']\<rparr>
      \<lparr>conditions = [], fields_obj = Some [(''age'', excluded), (''ssn'', excluded)]\<rparr>
     = (Threw UnknownSelectionField, \<lparr>conditions = [], fields_obj = Some [(''age'', excluded), (''ssn'', excluded)]\<rparr>)
   \<and> restrictSelect
      \<lparr>allowNonModelQueryParameters = False, allowNonModelSelectionParameters = True,
         paths = [''name'', ''email'', ''age'']\<rparr>
      \<lparr>conditions = [], fields_obj = Some [(''age'', excluded), (''ssn'', excluded)]\<rparr>
     = (Next, \<lparr>conditions = [], fields_obj = Some [(''name'', included), (''email'', included)]\<rparr>)"
proof -
  let ?q = "\<lparr>conditions = [], fields_obj = Some [(''age'', excluded), (''ssn'', excluded)]\<rparr>"
  have wf: "wellFormed (projection ?q)"
    by (simp add: wellFormed_def projection_def keys_def)
  have mode: "exclusionMode (projection ?q)"
    by (simp add: exclusionMode_def uniform_def projection_def)
  have pass: "filterPasses pl ?q" for pl
    by (simp add: filterPasses_def keys_def)
  have dist: "distinct (paths
      \<lparr>allowNonModelQueryParameters = False, allowNonModelSelectionParameters = False,
         paths = [''name'', ''email'', ''age'']\<rparr>)"
    "distinct (paths
      \<lparr>allowNonModelQueryParameters = False, allowNonModelSelectionParameters = True,
         paths = [''name'', ''email'', ''age'']\<rparr>)"
    by simp_all
  from exclusion_count_check [OF pass dist(1) wf mode]
  have strict: "restrictSelect
      \<lparr>allowNonModelQueryParameters = False, allowNonModelSelectionParameters = False,
         paths = [''name'', ''email'', ''age'']\<rparr> ?q
     = (Threw UnknownSelectionField, ?q)"
    by (simp add: Let_def projection_def keys_def)
  from exclusion_count_check [OF pass dist(2) wf mode]
  have "restrictSelect
      \<lparr>allowNonModelQueryParameters = False, allowNonModelSelectionParameters = True,
         paths = [''name'', ''email'', ''age'']\<rparr> ?q
     = (Next, \<lparr>conditions = [], fields_obj = Some [(''name'', included), (''email'', included)]\<rparr>)"
    by (simp add: Let_def projection_def keys_def)
  with strict show ?thesis by simp
qed

text \<open>
  C6. Step 1 passed, \<^verbatim>\<open>paths\<close> has no duplicate, and the projection is in exclusion mode and
  excludes fields of \<^verbatim>\<open>paths\<close> only: the call returns, whatever the flags; the final projection
  has \<open>|paths| - |P|\<close> keys, all marked \<^verbatim>\<open>1\<close>, and they are the paths that are not excluded.
\<close>

theorem exclusion_of_known_fields:
  assumes pass: "filterPasses pl q"
    and dist: "distinct (paths pl)"
    and wf: "wellFormed (projection q)"
    and mode: "exclusionMode (projection q)"
    and known: "set (keys (projection q)) \<subseteq> set (paths pl)"
  shows "\<exists>m. restrictSelect pl q = (Next, q\<lparr>fields_obj := Some m\<rparr>)
              \<and> wellFormed m \<and> uniform included m
              \<and> int (length (keys m)) = int (length (paths pl)) - int (length (keys (projection q)))
              \<and> set (keys m) = set (paths pl) - set (keys (projection q))"
proof -
  define inc where "inc = filter (\<lambda>p. p \<notin> set (keys (projection q))) (paths pl)"
  define m where "m = map (\<lambda>p. (p, included)) inc"
  have count: "int (length inc) = int (length (paths pl)) - int (length (keys (projection q)))"
    unfolding inc_def using dist wf known excluded_count [of "paths pl" "keys (projection q)"]
    by (simp add: wellFormed_def)
  have km: "keys m = inc" by (simp add: m_def keys_def comp_def)
  have "restrictSelect pl q = (Next, q\<lparr>fields_obj := Some m\<rparr>)"
    using branch_exclusion_uniform(2) [OF pass dist mode] count
    by (simp add: inc_def m_def)
  moreover have "wellFormed m" using dist by (simp add: wellFormed_def km inc_def)
  moreover have "uniform included m" by (simp add: uniform_def m_def list_all_iff)
  moreover have "int (length (keys m)) = int (length (paths pl)) - int (length (keys (projection q)))"
    using count by (simp add: km)
  moreover have "set (keys m) = set (paths pl) - set (keys (projection q))"
    by (auto simp: km inc_def)
  ultimately show ?thesis by blast
qed

theorem exclusion_of_known_fields_witness:
  "\<exists>m. restrictSelect
        \<lparr>allowNonModelQueryParameters = False, allowNonModelSelectionParameters = False,
         paths = [''name'', ''email'', ''age'']\<rparr>
        \<lparr>conditions = [], fields_obj = Some [(''age'', excluded)]\<rparr>
       = (Next, \<lparr>conditions = [], fields_obj = Some m\<rparr>)
     \<and> wellFormed m \<and> uniform included m \<and> int (length (keys m)) = 2
     \<and> set (keys m) = {''name'', ''email''}"
proof -
  let ?pl = "\<lparr>allowNonModelQueryParameters = False, allowNonModelSelectionParameters = False,
         paths = [''name'', ''email'', ''age'']\<rparr>"
  let ?q = "\<lparr>conditions = [], fields_obj = Some [(''age'', excluded)]\<rparr>"
  have pass: "filterPasses ?pl ?q"
    by (simp add: filterPasses_def keys_def)
  have dist: "distinct (paths ?pl)"
    by simp
  have wf: "wellFormed (projection ?q)"
    by (simp add: wellFormed_def projection_def keys_def)
  have mode: "exclusionMode (projection ?q)"
    by (simp add: exclusionMode_def uniform_def projection_def)
  have known: "set (keys (projection ?q)) \<subseteq> set (paths ?pl)"
    by (simp add: projection_def keys_def)
  have diff: "set (paths ?pl) - set (keys (projection ?q)) = {''name'', ''email''}"
    by (auto simp: projection_def keys_def)
  have len: "int (length (paths ?pl)) - int (length (keys (projection ?q))) = 2"
    by (simp add: projection_def keys_def)
  from exclusion_of_known_fields [OF pass dist wf mode known] show ?thesis
    unfolding diff len by simp
qed

text \<open>
  C7. Step 1 passed and the projection is in inclusion mode (it has a key and every marker is
  \<^verbatim>\<open>1\<close>) with all its keys in \<^verbatim>\<open>paths\<close>: the call returns, whatever the flags, and the final
  projection is the projection it received.
\<close>

theorem inclusion_of_known_fields:
  assumes pass: "filterPasses pl q"
    and wf: "wellFormed (projection q)"
    and ne: "projection q \<noteq> []"
    and un: "uniform included (projection q)"
    and known: "set (keys (projection q)) \<subseteq> set (paths pl)"
  shows "restrictSelect pl q = (Next, q\<lparr>fields_obj := Some (projection q)\<rparr>)"
proof -
  from ne un have mode: "inclusionMode (projection q)"
    by (cases "projection q") (auto simp: inclusionMode_def uniform_def)
  have all: "filter (\<lambda>f. f \<in> set (paths pl)) (keys (projection q)) = keys (projection q)"
    using known by (auto intro: filter_True)
  have "inclusionLoop (allowNonModelSelectionParameters pl) (paths pl) (keys (projection q)) []
      = Inr ([] @ map (\<lambda>f. (f, included)) (filter (\<lambda>f. f \<in> set (paths pl)) (keys (projection q))))"
    using wf known by (intro inclusionLoop_result) (simp_all add: wellFormed_def keys_def)
  then have "inclusionLoop (allowNonModelSelectionParameters pl) (paths pl) (keys (projection q)) []
      = Inr (projection q)"
    by (simp add: all uniform_map_keys [OF un])
  then show ?thesis by (simp add: branch_inclusion [OF pass mode])
qed

theorem inclusion_of_known_fields_witness:
  "restrictSelect
      \<lparr>allowNonModelQueryParameters = False, allowNonModelSelectionParameters = False,
         paths = [''name'', ''email'', ''age'']\<rparr>
      \<lparr>conditions = [], fields_obj = Some [(''name'', included)]\<rparr>
     = (Next, \<lparr>conditions = [], fields_obj = Some [(''name'', included)]\<rparr>)"
proof -
  let ?pl = "\<lparr>allowNonModelQueryParameters = False, allowNonModelSelectionParameters = False,
         paths = [''name'', ''email'', ''age'']\<rparr>"
  let ?q = "\<lparr>conditions = [], fields_obj = Some [(''name'', included)]\<rparr>"
  have pass: "filterPasses ?pl ?q"
    by (simp add: filterPasses_def keys_def)
  have wf: "wellFormed (projection ?q)"
    by (simp add: wellFormed_def projection_def keys_def)
  have ne: "projection ?q \<noteq> []"
    by (simp add: projection_def)
  have un: "uniform included (projection ?q)"
    by (simp add: uniform_def projection_def)
  have known: "set (keys (projection ?q)) \<subseteq> set (paths ?pl)"
    by (simp add: projection_def keys_def)
  from inclusion_of_known_fields [OF pass wf ne un known] show ?thesis
    by (simp add: projection_def)
qed

text \<open>
  C8. With \<^verbatim>\<open>allowNonModelQueryParameters\<close> unset and a filter key outside \<^verbatim>\<open>paths\<close>, the call
  throws the filter error for such a key and leaves the query as it was, and it does so for
  every projection the query may carry: the projection is neither read nor written.
\<close>

theorem filter_checked_first:
  assumes strict: "\<not> allowNonModelQueryParameters pl"
    and unknown: "\<exists>k \<in> set (keys (conditions q)). k \<notin> set (paths pl)"
  shows "\<exists>f. f \<in> set (keys (conditions q)) \<and> f \<notin> set (paths pl)
            \<and> (\<forall>P. restrictSelect pl (q\<lparr>fields_obj := P\<rparr>)
                      = (Threw (UnknownFilterField f), q\<lparr>fields_obj := P\<rparr>))"
proof -
  from unknown have "\<not> set (keys (conditions q)) \<subseteq> set (paths pl)" by auto
  then have "checkQueryFields (paths pl) (keys (conditions q)) \<noteq> None"
    by (simp add: checkQueryFields_None)
  then obtain e where e: "checkQueryFields (paths pl) (keys (conditions q)) = Some e"
    by auto
  from checkQueryFields_Some [OF e] obtain f
    where f: "e = UnknownFilterField f" "f \<in> set (keys (conditions q))" "f \<notin> set (paths pl)"
    by auto
  have "restrictSelect pl (q\<lparr>fields_obj := P\<rparr>) = (Threw (UnknownFilterField f), q\<lparr>fields_obj := P\<rparr>)"
    for P
    using step1_throws [of pl "q\<lparr>fields_obj := P\<rparr>" e] strict e f(1)
    by simp
  with f show ?thesis by blast
qed

theorem filter_checked_first_witness:
  "restrictSelect
      \<lparr>allowNonModelQueryParameters = False, allowNonModelSelectionParameters = False,
         paths = [''name'', ''email'', ''age'']\<rparr>
      \<lparr>conditions = [(''ssn'', Other)], fields_obj = Some [(''ssn'', included)]\<rparr>
     = (Threw (UnknownFilterField ''ssn''), \<lparr>conditions = [(''ssn'', Other)], fields_obj = Some [(''ssn'', included)]\<rparr>)"
proof -
  let ?pl = "\<lparr>allowNonModelQueryParameters = False, allowNonModelSelectionParameters = False,
         paths = [''name'', ''email'', ''age'']\<rparr>"
  let ?q = "\<lparr>conditions = [(''ssn'', Other)], fields_obj = None\<rparr>"
  have strict: "\<not> allowNonModelQueryParameters ?pl"
    by simp
  have unknown: "\<exists>k \<in> set (keys (conditions ?q)). k \<notin> set (paths ?pl)"
    by (simp add: keys_def)
  from filter_checked_first [OF strict unknown] obtain f
    where f: "f \<in> set (keys (conditions ?q))"
      and run: "\<forall>P. restrictSelect ?pl (?q\<lparr>fields_obj := P\<rparr>)
                  = (Threw (UnknownFilterField f), ?q\<lparr>fields_obj := P\<rparr>)"
    by blast
  from f have "f = ''ssn''" by (simp add: keys_def)
  with run have "restrictSelect ?pl (?q\<lparr>fields_obj := Some [(''ssn'', included)]\<rparr>)
      = (Threw (UnknownFilterField ''ssn''), ?q\<lparr>fields_obj := Some [(''ssn'', included)]\<rparr>)"
    by blast
  then show ?thesis by simp
qed

text \<open>
  C9. Whenever the call throws, whichever error and in whichever branch, the query is left
  exactly as it was received: the new projection is assigned only after the last check.
\<close>

theorem throw_leaves_query:
  assumes "fst (restrictSelect pl q) = Threw e"
  shows "snd (restrictSelect pl q) = q"
proof (cases "filterPasses pl q")
  case False
  from step1_fails [OF this] show ?thesis by auto
next
  case pass: True
  consider (A) "projection q = []"
    | (B) "inclusionMode (projection q)"
    | (C) "projection q \<noteq> []" "snd (hd (projection q)) \<noteq> included"
    by (auto simp: inclusionMode_def)
  then show ?thesis
  proof cases
    case A
    with assms show ?thesis by (simp add: branch_empty [OF pass A])
  next
    case B
    with assms show ?thesis
      by (simp add: branch_inclusion [OF pass B] split: sum.splits)
  next
    case C
    with assms show ?thesis
      by (simp add: branch_exclusion [OF pass C] Let_def split: if_splits)
  qed
qed

theorem throw_leaves_query_witness:
  "fst (restrictSelect
      \<lparr>allowNonModelQueryParameters = False, allowNonModelSelectionParameters = False,
         paths = [''name'', ''email'', ''age'']\<rparr>
      \<lparr>conditions = [], fields_obj = Some [(''name'', included), (''ssn'', included)]\<rparr>) = Threw UnknownSelectionField
   \<and> snd (restrictSelect
      \<lparr>allowNonModelQueryParameters = False, allowNonModelSelectionParameters = False,
         paths = [''name'', ''email'', ''age'']\<rparr>
      \<lparr>conditions = [], fields_obj = Some [(''name'', included), (''ssn'', included)]\<rparr>) = \<lparr>conditions = [], fields_obj = Some [(''name'', included), (''ssn'', included)]\<rparr>"
proof -
  have thrown: "fst (restrictSelect
      \<lparr>allowNonModelQueryParameters = False, allowNonModelSelectionParameters = False,
         paths = [''name'', ''email'', ''age'']\<rparr>
      \<lparr>conditions = [], fields_obj = Some [(''name'', included), (''ssn'', included)]\<rparr>) = Threw UnknownSelectionField"
    by (simp add: restrictSelect_def keys_def get_prop_def select_def)
  from throw_leaves_query [OF thrown] thrown show ?thesis by simp
qed

text \<open>
  C10. Step 1 passed, \<^verbatim>\<open>allowNonModelSelectionParameters\<close> is set, and the projection takes the
  inclusion branch with every key outside \<^verbatim>\<open>paths\<close>: the call returns and the final projection
  is the object with no key.
\<close>

theorem inclusion_all_unknown_lenient:
  assumes pass: "filterPasses pl q"
    and mode: "inclusionMode (projection q)"
    and lenient: "allowNonModelSelectionParameters pl"
    and unknown: "\<forall>k \<in> set (keys (projection q)). k \<notin> set (paths pl)"
  shows "restrictSelect pl q = (Next, q\<lparr>fields_obj := Some []\<rparr>)"
proof -
  from inclusionLoop_all_unknown [OF unknown] lenient show ?thesis
    by (simp add: branch_inclusion [OF pass mode])
qed

theorem inclusion_all_unknown_lenient_witness:
  "restrictSelect
      \<lparr>allowNonModelQueryParameters = False, allowNonModelSelectionParameters = True,
         paths = [''name'', ''email'', ''age'']\<rparr>
      \<lparr>conditions = [], fields_obj = Some [(''ssn'', included)]\<rparr>
     = (Next, \<lparr>conditions = [], fields_obj = Some []\<rparr>)"
proof -
  let ?pl = "\<lparr>allowNonModelQueryParameters = False, allowNonModelSelectionParameters = True,
         paths = [''name'', ''email'', ''age'']\<rparr>"
  let ?q = "\<lparr>conditions = [], fields_obj = Some [(''ssn'', included)]\<rparr>"
  have pass: "filterPasses ?pl ?q"
    by (simp add: filterPasses_def keys_def)
  have mode: "inclusionMode (projection ?q)"
    by (simp add: inclusionMode_def projection_def)
  have lenient: "allowNonModelSelectionParameters ?pl"
    by simp
  have unknown: "\<forall>k \<in> set (keys (projection ?q)). k \<notin> set (paths ?pl)"
    by (simp add: projection_def keys_def)
  from inclusion_all_unknown_lenient [OF pass mode lenient unknown] show ?thesis
    by simp
qed

end
